theory Spec2Isabelle
  imports Main "HOL-Library.Word" "HOL-Library.Sublist" "HOL-Library.AList_Mapping"
begin

section \<open>The broadcast hub of main.go\<close>

text \<open>
  The program keeps one global map \<open>clients\<close> from \<open>*Client\<close> pointers to \<open>bool\<close>, one
  unbuffered channel \<open>broadcast\<close> of byte slices, one goroutine per accepted connection
  running \<open>handleConnections\<close>, and one goroutine running \<open>handleMessages\<close>.

  The embedding is a state machine. A \<open>world\<close> holds the globals, the two kinds of heap
  objects (\<open>Client\<close> structs and websocket connections) and the program counter of every
  goroutine at its blocking statement. An \<open>event\<close> is one goroutine running from one blocking
  statement to the next; what the network and the allocator decide (the result of an upgrade,
  of a read, of a write, the address of a new object, the iteration order of the map) is
  carried by the event. Goroutines interleave between events and not inside them: the
  statements of one event run without interference.
\<close>

subsection \<open>Data\<close>

type_synonym bytes = "8 word list"
type_synonym error = string
type_synonym client_ptr = nat
type_synonym conn_ptr = nat

text \<open>The two data frame types of the websocket library (constants 1 and 2).\<close>

datatype msg_type = TextMessage | BinaryMessage

text \<open>\<open>type Client struct { conn *websocket.Conn }\<close>\<close>

record Client =
  conn :: conn_ptr

text \<open>
  What this program can observe of a \<open>websocket.Conn\<close>: whether \<open>Close\<close> has been called on
  it, and the frames written to its peer so far, oldest first.
\<close>

record ws_conn =
  closed :: bool
  written :: "(msg_type \<times> bytes) list"

text \<open>
  A goroutine running \<open>handleConnections\<close> after a successful upgrade is blocked in
  \<open>ws.ReadMessage()\<close> (line 47), blocked in \<open>broadcast <- msg\<close> (line 54) holding the
  message it read, or has left the loop and returned.
\<close>

datatype worker = AtRead | AtSend bytes | Exited

text \<open>
  The goroutine running \<open>handleMessages\<close> is blocked in \<open>msg := <-broadcast\<close> (line 62), or
  holds a message and is about to run the \<open>range\<close> loop of lines 64 to 71.
\<close>

datatype broadcaster = AtReceive | AtRange bytes

text \<open>
  The process: whether it is running; the \<open>Client\<close> structs and the connections
  allocated so far; the global map \<open>clients\<close>; where each goroutine stands; and what
  \<open>log\<close> has printed.
\<close>

record world =
  alive :: bool
  heap :: "client_ptr \<rightharpoonup> Client"
  conns :: "conn_ptr \<rightharpoonup> ws_conn"
  clients :: "(client_ptr, bool) mapping"
  workers :: "client_ptr \<rightharpoonup> worker"
  hub :: broadcaster
  logs :: "string list"

text \<open>The state after \<open>main\<close> has started \<open>handleMessages\<close> and the HTTP server.\<close>

definition init :: world where
  "init = \<lparr>alive = True, heap = Map.empty, conns = Map.empty, clients = Mapping.empty,
           workers = Map.empty, hub = AtReceive, logs = []\<rparr>"

subsection \<open>The registry operations\<close>

text \<open>\<open>clients[client] = true\<close> (line 42).\<close>

definition clients_add :: "(client_ptr, bool) mapping \<Rightarrow> client_ptr \<Rightarrow> (client_ptr, bool) mapping" where
  "clients_add m p = Mapping.update p True m"

text \<open>\<open>delete(clients, client)\<close> (lines 50 and 69). The builtin returns nothing.\<close>

definition clients_delete :: "(client_ptr, bool) mapping \<Rightarrow> client_ptr \<Rightarrow> (client_ptr, bool) mapping" where
  "clients_delete m p = Mapping.delete p m"

text \<open>\<open>clients[p]\<close> in a world: what is stored under the key, if the key is present.\<close>

abbreviation entry :: "world \<Rightarrow> client_ptr \<Rightarrow> bool option" where
  "entry w p \<equiv> Mapping.lookup (clients w) p"

subsection \<open>The connection operations of the websocket library\<close>

text \<open>
  The library is not part of the repository. Its three calls are modelled by their contract:
  after \<open>Close\<close>, reads and writes return an error; before it, a read returns what the
  network delivers and a write either returns the network's error or appends the frame to
  what the peer receives.
\<close>

definition Close :: "ws_conn \<Rightarrow> ws_conn" where
  "Close c = c\<lparr>closed := True\<rparr>"

definition ReadMessage :: "ws_conn \<Rightarrow> error + msg_type \<times> bytes \<Rightarrow> error + msg_type \<times> bytes" where
  "ReadMessage c net = (if closed c then Inl ''use of closed network connection'' else net)"

definition WriteMessage :: "ws_conn \<Rightarrow> error option \<Rightarrow> msg_type \<Rightarrow> bytes \<Rightarrow> error + ws_conn" where
  "WriteMessage c net t m =
     (if closed c then Inl ''use of closed network connection''
      else case net of
             Some e \<Rightarrow> Inl e
           | None \<Rightarrow> Inr (c\<lparr>written := written c @ [(t, m)]\<rparr>))"

text \<open>\<open>log.Printf("error: %v", err)\<close>\<close>

definition log_Printf_error :: "error \<Rightarrow> world \<Rightarrow> world" where
  "log_Printf_error err w = w\<lparr>logs := logs w @ [''error: '' @ err]\<rparr>"

text \<open>
  \<open>client.conn\<close> followed through the heap: the address of the connection and its state.
  A \<open>*Client\<close> or \<open>*websocket.Conn\<close> that points at nothing gives \<open>None\<close>.
\<close>

definition client_conn :: "world \<Rightarrow> client_ptr \<Rightarrow> (conn_ptr \<times> ws_conn) option" where
  "client_conn w p =
     (case heap w p of
        None \<Rightarrow> None
      | Some cl \<Rightarrow> (case conns w (conn cl) of None \<Rightarrow> None | Some c \<Rightarrow> Some (conn cl, c)))"

subsection \<open>handleConnections\<close>

text \<open>
  Lines 34 to 42. \<open>r\<close> is the result of \<open>upgrader.Upgrade\<close> and \<open>p\<close> the address
  \<open>&Client{conn: ws}\<close> evaluates to. On an error \<open>log.Fatal\<close> prints it and exits the
  process. Otherwise the connection returned and the struct allocated are new objects: an event
  that names an address already in use cannot happen.
\<close>

definition handleConnections_upgrade :: "error + conn_ptr \<Rightarrow> client_ptr \<Rightarrow> world \<Rightarrow> world option" where
  "handleConnections_upgrade r p w =
     (case r of
        Inl err \<Rightarrow> Some (w\<lparr>alive := False, logs := logs w @ [err]\<rparr>)
      | Inr ws \<Rightarrow>
          if conns w ws \<noteq> None \<or> heap w p \<noteq> None then None
          else Some (w\<lparr>heap := (heap w)(p \<mapsto> \<lparr>conn = ws\<rparr>),
                       conns := (conns w)(ws \<mapsto> \<lparr>closed = False, written = []\<rparr>),
                       clients := clients_add (clients w) p,
                       workers := (workers w)(p \<mapsto> AtRead)\<rparr>))"

text \<open>
  Lines 47 to 52, for the goroutine of client \<open>p\<close> blocked at line 47; \<open>net\<close> is what the
  network delivers. The goroutine's \<open>ws\<close> is the connection its \<open>Client\<close> holds. On an
  error: log, delete the client, leave the loop; the deferred \<open>ws.Close()\<close> of line 38 runs
  as the function returns. On a frame: its type is dropped (the blank identifier of line 47)
  and the goroutine moves to line 54 with the payload. A goroutine that is not at line 47, or
  that has no connection, cannot make this step.
\<close>

definition handleConnections_read :: "client_ptr \<Rightarrow> error + msg_type \<times> bytes \<Rightarrow> world \<Rightarrow> world option" where
  "handleConnections_read p net w =
     (case workers w p of
        Some AtRead \<Rightarrow>
          (case client_conn w p of
             None \<Rightarrow> None
           | Some (ws, c) \<Rightarrow>
               (case ReadMessage c net of
                  Inl err \<Rightarrow>
                    Some ((log_Printf_error err w)
                            \<lparr>clients := clients_delete (clients w) p,
                             conns := (conns w)(ws \<mapsto> Close c),
                             workers := (workers w)(p \<mapsto> Exited)\<rparr>)
                | Inr (t, msg) \<Rightarrow> Some (w\<lparr>workers := (workers w)(p \<mapsto> AtSend msg)\<rparr>)))
      | _ \<Rightarrow> None)"

text \<open>
  Line 54 meeting line 62. \<open>broadcast\<close> is made by \<open>make(chan []byte)\<close>, with no buffer: the
  send completes when, and only when, \<open>handleMessages\<close> is blocked in its receive. The
  message passes to \<open>handleMessages\<close> and the sender goes back to line 47. The channel is
  never closed, so the send has no other outcome.
\<close>

definition handleConnections_send :: "client_ptr \<Rightarrow> world \<Rightarrow> world option" where
  "handleConnections_send p w =
     (case workers w p of
        Some (AtSend msg) \<Rightarrow>
          (case hub w of
             AtReceive \<Rightarrow> Some (w\<lparr>hub := AtRange msg, workers := (workers w)(p \<mapsto> AtRead)\<rparr>)
           | AtRange _ \<Rightarrow> None)
      | _ \<Rightarrow> None)"

subsection \<open>handleMessages\<close>

text \<open>
  Lines 65 to 70, the body of the loop for one client; \<open>net\<close> gives, for each connection,
  the error its next write meets on the network, if any. Dereferencing a pointer that points
  at nothing panics, which ends the process.
\<close>

definition handleMessages_body :: "(conn_ptr \<rightharpoonup> error) \<Rightarrow> bytes \<Rightarrow> client_ptr \<Rightarrow> world \<Rightarrow> world" where
  "handleMessages_body net msg p w =
     (case client_conn w p of
        None \<Rightarrow> w\<lparr>alive := False\<rparr>
      | Some (ws, c) \<Rightarrow>
          (case WriteMessage c (net ws) TextMessage msg of
             Inr c' \<Rightarrow> w\<lparr>conns := (conns w)(ws \<mapsto> c')\<rparr>
           | Inl err \<Rightarrow>
               (log_Printf_error err w)
                 \<lparr>conns := (conns w)(ws \<mapsto> Close c),
                  clients := clients_delete (clients w) p\<rparr>))"

text \<open>
  Lines 64 to 71: \<open>for client := range clients\<close> over the keys in the order \<open>ps\<close>. A key
  deleted before the loop reaches it is not produced.
\<close>

fun handleMessages_range :: "(conn_ptr \<rightharpoonup> error) \<Rightarrow> bytes \<Rightarrow> client_ptr list \<Rightarrow> world \<Rightarrow> world" where
  "handleMessages_range net msg [] w = w"
| "handleMessages_range net msg (p # ps) w =
     (if \<not> alive w then w
      else if entry w p = None then handleMessages_range net msg ps w
      else handleMessages_range net msg ps (handleMessages_body net msg p w))"

text \<open>
  One broadcast round: \<open>handleMessages\<close> holds a message, ranges over the map and goes back
  to line 62. A \<open>range\<close> over a map that only the loop itself changes, and only by deleting
  the key at hand, produces every key once, in an order the language leaves open.
\<close>

definition handleMessages_round :: "client_ptr list \<Rightarrow> (conn_ptr \<rightharpoonup> error) \<Rightarrow> world \<Rightarrow> world option" where
  "handleMessages_round ps net w =
     (case hub w of
        AtReceive \<Rightarrow> None
      | AtRange msg \<Rightarrow>
          if distinct ps \<and> set ps = Mapping.keys (clients w)
          then Some ((handleMessages_range net msg ps w)\<lparr>hub := AtReceive\<rparr>)
          else None)"

subsection \<open>The whole program\<close>

text \<open>
  The events: an HTTP request reaches \<open>handleConnections\<close> (lines 34 to 42), with the
  result of the upgrade and the address of the new struct; the read of a client's goroutine
  returns (lines 47 to 52), with what the network delivers; the send of line 54 meets the
  receive of line 62; \<open>handleMessages\<close> runs one round (lines 64 to 71), with the order
  of the keys and the network's answer to each write.
\<close>

datatype event =
    Request "error + conn_ptr" client_ptr
  | Read client_ptr "error + msg_type \<times> bytes"
  | Send client_ptr
  | Round "client_ptr list" "conn_ptr \<rightharpoonup> error"

text \<open>After \<open>log.Fatal\<close> or a panic there is no process, and nothing runs.\<close>

definition step :: "event \<Rightarrow> world \<Rightarrow> world option" where
  "step e w =
     (if \<not> alive w then None
      else case e of
             Request r p \<Rightarrow> handleConnections_upgrade r p w
           | Read p net \<Rightarrow> handleConnections_read p net w
           | Send p \<Rightarrow> handleConnections_send p w
           | Round ps net \<Rightarrow> handleMessages_round ps net w)"

text \<open>
  A run: the events one after the other. It is \<open>None\<close> when one of them cannot happen in
  the state it meets.
\<close>

fun run :: "event list \<Rightarrow> world \<Rightarrow> world option" where
  "run [] w = Some w"
| "run (e # es) w = (case step e w of None \<Rightarrow> None | Some w' \<Rightarrow> run es w')"

subsection \<open>Notions the properties are stated in\<close>

text \<open>The address held by \<open>client.conn\<close>.\<close>

definition conn_of :: "world \<Rightarrow> client_ptr \<Rightarrow> conn_ptr option" where
  "conn_of w p = map_option fst (client_conn w p)"

text \<open>
  A client is eligible for broadcasts when its struct and its connection exist and the
  connection has not been closed.
\<close>

definition eligible :: "world \<Rightarrow> client_ptr \<Rightarrow> bool" where
  "eligible w p = (case client_conn w p of None \<Rightarrow> False | Some (ws, c) \<Rightarrow> \<not> closed c)"

text \<open>
  The registry invariant: no two keys of \<open>clients\<close> stand for the same connection, and the
  keys are exactly the clients whose connection is established and not closed.
\<close>

definition registry_inv :: "world \<Rightarrow> bool" where
  "registry_inv w \<longleftrightarrow>
     (\<forall>p q. entry w p \<noteq> None \<and> entry w q \<noteq> None \<and> conn_of w p = conn_of w q \<longrightarrow> p = q) \<and>
     (\<forall>p. entry w p \<noteq> None \<longleftrightarrow> eligible w p)"

text \<open>
  The shape of the heap \<open>handleConnections\<close> builds: the connection of every
  \<open>Client\<close> exists, and no two \<open>Client\<close> structs hold the same connection.
\<close>

definition heap_ok :: "world \<Rightarrow> bool" where
  "heap_ok w \<longleftrightarrow>
     (\<forall>p cl. heap w p = Some cl \<longrightarrow> conns w (conn cl) \<noteq> None) \<and>
     (\<forall>p q cl cl'. heap w p = Some cl \<and> heap w q = Some cl' \<and> conn cl = conn cl' \<longrightarrow> p = q)"

text \<open>
  The invariant the proofs carry: the heap has that shape, and the keys of \<open>clients\<close> are
  the eligible clients.
\<close>

definition world_ok :: "world \<Rightarrow> bool" where
  "world_ok w \<longleftrightarrow> heap_ok w \<and> (\<forall>p. entry w p \<noteq> None \<longleftrightarrow> eligible w p)"

text \<open>The frames the peer of a client has been sent, oldest first.\<close>

definition received :: "world \<Rightarrow> client_ptr \<Rightarrow> (msg_type \<times> bytes) list" where
  "received w p = (case client_conn w p of None \<Rightarrow> [] | Some (ws, c) \<Rightarrow> written c)"

text \<open>
  Whether the write of line 65 to a client returns an error, given the state of its
  connection and what the network answers.
\<close>

definition write_fails :: "(conn_ptr \<rightharpoonup> error) \<Rightarrow> bytes \<Rightarrow> world \<Rightarrow> client_ptr \<Rightarrow> bool" where
  "write_fails net msg w p =
     (case client_conn w p of
        None \<Rightarrow> False
      | Some (ws, c) \<Rightarrow> isl (WriteMessage c (net ws) TextMessage msg))"

text \<open>Every frame a client's peer has been sent is a text frame.\<close>

definition text_only :: "world \<Rightarrow> bool" where
  "text_only w \<longleftrightarrow> (\<forall>p. \<forall>f \<in> set (received w p). fst f = TextMessage)"

subsection \<open>Notions for the order of messages\<close>

text \<open>
  The payloads client \<open>a\<close>'s peer puts on the wire, in order: those of the frames the
  network delivers to \<open>a\<close>'s goroutine in the run.
\<close>

fun sent_by :: "client_ptr \<Rightarrow> event list \<Rightarrow> bytes list" where
  "sent_by a [] = []"
| "sent_by a (Read p (Inr (t, m)) # es) = (if p = a then m # sent_by a es else sent_by a es)"
| "sent_by a (e # es) = sent_by a es"

text \<open>
  Payloads are opaque to the program, and two clients may send the same bytes. To speak of
  the messages of one source, a run is taken together with a function \<open>origin\<close> that reads
  the source off a payload; the run is \<open>tagged\<close> when every payload read from client \<open>p\<close>
  has origin \<open>p\<close>.
\<close>

fun tagged :: "(bytes \<Rightarrow> client_ptr) \<Rightarrow> event list \<Rightarrow> bool" where
  "tagged origin [] = True"
| "tagged origin (Read p (Inr (t, m)) # es) = (origin m = p \<and> tagged origin es)"
| "tagged origin (e # es) = tagged origin es"

text \<open>Of the frames sent to a peer, the payloads that come from \<open>a\<close>, in the order sent.\<close>

definition from_source :: "(bytes \<Rightarrow> client_ptr) \<Rightarrow> client_ptr \<Rightarrow> (msg_type \<times> bytes) list \<Rightarrow> bytes list" where
  "from_source origin a fs = [m \<leftarrow> map snd fs. origin m = a]"

text \<open>
  The messages of \<open>a\<close> that have been read and not yet broadcast: the one
  \<open>handleMessages\<close> holds, then the one \<open>a\<close>'s goroutine is waiting to send.
\<close>

definition in_flight :: "(bytes \<Rightarrow> client_ptr) \<Rightarrow> client_ptr \<Rightarrow> world \<Rightarrow> bytes list" where
  "in_flight origin a w =
     (case hub w of AtRange m \<Rightarrow> if origin m = a then [m] else [] | AtReceive \<Rightarrow> []) @
     (case workers w a of Some (AtSend m) \<Rightarrow> [m] | _ \<Rightarrow> [])"

text \<open>
  What holds of the messages of \<open>a\<close> along a run: a goroutine waiting to send holds a
  message of its own client, and what any peer has been sent from \<open>a\<close>, followed by the
  messages of \<open>a\<close> in flight, is a subsequence of what \<open>a\<close> sent.
\<close>

definition order_inv :: "(bytes \<Rightarrow> client_ptr) \<Rightarrow> client_ptr \<Rightarrow> event list \<Rightarrow> world \<Rightarrow> bool" where
  "order_inv origin a es w \<longleftrightarrow>
     world_ok w \<and>
     (\<forall>p m. workers w p = Some (AtSend m) \<longrightarrow> origin m = p) \<and>
     (\<forall>r. subseq (from_source origin a (received w r) @ in_flight origin a w) (sent_by a es))"

text \<open>
  The program never looks inside a payload, so a run can be replayed with every payload
  replaced by its image under a function. These maps replace the payloads a world and an event
  hold.
\<close>

definition map_conn :: "(bytes \<Rightarrow> bytes) \<Rightarrow> ws_conn \<Rightarrow> ws_conn" where
  "map_conn f c = c\<lparr>written := map (map_prod id f) (written c)\<rparr>"

fun map_worker :: "(bytes \<Rightarrow> bytes) \<Rightarrow> worker \<Rightarrow> worker" where
  "map_worker f AtRead = AtRead"
| "map_worker f (AtSend m) = AtSend (f m)"
| "map_worker f Exited = Exited"

fun map_broadcaster :: "(bytes \<Rightarrow> bytes) \<Rightarrow> broadcaster \<Rightarrow> broadcaster" where
  "map_broadcaster f AtReceive = AtReceive"
| "map_broadcaster f (AtRange m) = AtRange (f m)"

definition map_world :: "(bytes \<Rightarrow> bytes) \<Rightarrow> world \<Rightarrow> world" where
  "map_world f w =
     w\<lparr>conns := (\<lambda>k. map_option (map_conn f) (conns w k)),
       workers := (\<lambda>p. map_option (map_worker f) (workers w p)),
       hub := map_broadcaster f (hub w)\<rparr>"

fun map_event :: "(bytes \<Rightarrow> bytes) \<Rightarrow> event \<Rightarrow> event" where
  "map_event f (Read p net) = Read p (map_sum id (map_prod id f) net)"
| "map_event f e = e"

text \<open>
  Tags: \<open>tag p m\<close> is the payload \<open>m\<close> marked as read from client \<open>p\<close>, by \<open>p\<close> bytes
  \<open>1\<close> and a byte \<open>0\<close> in front of it; \<open>source\<close> and \<open>untag\<close> read the mark and remove it.
  \<open>tag_reads\<close> is a run with every payload tagged by the client it is read from.
\<close>

definition tag :: "client_ptr \<Rightarrow> bytes \<Rightarrow> bytes" where
  "tag p m = replicate p 1 @ 0 # m"

definition source :: "bytes \<Rightarrow> client_ptr" where
  "source m = length (takeWhile (\<lambda>b. b \<noteq> 0) m)"

definition untag :: "bytes \<Rightarrow> bytes" where
  "untag m = tl (dropWhile (\<lambda>b. b \<noteq> 0) m)"

fun tag_reads :: "event list \<Rightarrow> event list" where
  "tag_reads [] = []"
| "tag_reads (Read p (Inr (t, m)) # es) = Read p (Inr (t, tag p m)) # tag_reads es"
| "tag_reads (e # es) = e # tag_reads es"

subsection \<open>Scenarios\<close>

text \<open>The bytes of \<open>"hello"\<close>.\<close>

definition hello :: bytes where
  "hello = [104, 101, 108, 108, 111]"

text \<open>A tagging for the scenarios: the first byte of a payload is its source.\<close>

definition first_byte :: "bytes \<Rightarrow> client_ptr" where
  "first_byte m = (case m of [] \<Rightarrow> 0 | b # _ \<Rightarrow> unat b)"

text \<open>
  Three clients connect (connections at 11, 12, 13; \<open>Client\<close> structs at 1, 2, 3) and the
  first one's goroutine reads \<open>"hello"\<close>, sent as a text frame.
\<close>

definition three_clients :: "event list" where
  "three_clients =
     [Request (Inr 11) 1, Request (Inr 12) 2, Request (Inr 13) 3,
      Read 1 (Inr (TextMessage, hello))]"

text \<open>Then \<open>handleMessages\<close> takes the message from the channel.\<close>

definition three_clients_one_sends :: "event list" where
  "three_clients_one_sends = three_clients @ [Send 1]"

text \<open>Then the round runs, and the write to the second client fails.\<close>

definition one_write_fails :: "event list" where
  "one_write_fails = three_clients_one_sends @ [Round [3, 1, 2] [12 \<mapsto> ''broken pipe'']]"

text \<open>Then the third client disconnects.\<close>

definition failure_and_disconnect :: "event list" where
  "failure_and_disconnect = one_write_fails @ [Read 3 (Inl ''EOF'')]"

text \<open>
  Two clients connect and each sends a message; \<open>handleMessages\<close> takes the first
  client's message from the channel.
\<close>

definition two_senders :: "event list" where
  "two_senders =
     [Request (Inr 11) 1, Request (Inr 12) 2,
      Read 1 (Inr (TextMessage, hello)), Read 2 (Inr (BinaryMessage, hello)), Send 1]"

text \<open>Two clients connect; the second sends \<open>"hello"\<close> as a binary frame, which is broadcast.\<close>

definition binary_in :: "event list" where
  "binary_in =
     [Request (Inr 11) 1, Request (Inr 12) 2,
      Read 2 (Inr (BinaryMessage, hello)), Send 2, Round [2, 1] Map.empty]"

text \<open>
  Three clients; the first sends two messages and the third sends one in between; each
  round iterates the map in a different order.
\<close>

definition two_sources :: "event list" where
  "two_sources =
     [Request (Inr 11) 1, Request (Inr 12) 2, Request (Inr 13) 3,
      Read 1 (Inr (TextMessage, [1, 10])), Read 3 (Inr (BinaryMessage, [3, 30])),
      Send 1, Round [1, 2, 3] Map.empty,
      Read 1 (Inr (TextMessage, [1, 20])),
      Send 3, Round [3, 2, 1] Map.empty,
      Send 1, Round [2, 1, 3] Map.empty]"

text \<open>
  Three clients; the first and the third send the same bytes, and the third's message is
  broadcast first.
\<close>

definition same_payload :: "event list" where
  "same_payload =
     [Request (Inr 11) 1, Request (Inr 12) 2, Request (Inr 13) 3,
      Read 1 (Inr (TextMessage, hello)), Read 3 (Inr (TextMessage, hello)),
      Send 3, Round [1, 2, 3] Map.empty, Send 1, Round [3, 2, 1] Map.empty]"

text \<open>What a run from the initial state leaves behind, when every event of it can happen.\<close>

definition received_after :: "event list \<Rightarrow> client_ptr \<Rightarrow> (msg_type \<times> bytes) list option" where
  "received_after es p = (case run es init of None \<Rightarrow> None | Some w \<Rightarrow> Some (received w p))"

definition alive_after :: "event list \<Rightarrow> bool option" where
  "alive_after es = (case run es init of None \<Rightarrow> None | Some w \<Rightarrow> Some (alive w))"

definition worker_after :: "event list \<Rightarrow> client_ptr \<Rightarrow> worker option option" where
  "worker_after es p = (case run es init of None \<Rightarrow> None | Some w \<Rightarrow> Some (workers w p))"

section \<open>Well-formed worlds\<close>

text \<open>The equations that evaluate a run on a concrete list of events.\<close>

lemmas model_defs = step_def handleConnections_upgrade_def handleConnections_read_def
  handleConnections_send_def handleMessages_round_def handleMessages_body_def
  client_conn_def ReadMessage_def WriteMessage_def Close_def log_Printf_error_def
  clients_add_def clients_delete_def init_def

lemmas scenario_defs = three_clients_def three_clients_one_sends_def one_write_fails_def
  failure_and_disconnect_def two_senders_def binary_in_def two_sources_def same_payload_def

lemma lookup_clients_add:
  "Mapping.lookup (clients_add m p) q = (if q = p then Some True else Mapping.lookup m q)"
  by (simp add: clients_add_def Mapping.lookup_update')

lemma lookup_clients_delete:
  "Mapping.lookup (clients_delete m p) q = (if q = p then None else Mapping.lookup m q)"
  by (simp add: clients_delete_def)

lemma client_conn_Some:
  "client_conn w p = Some (ws, c) \<longleftrightarrow> (\<exists>cl. heap w p = Some cl \<and> conn cl = ws \<and> conns w ws = Some c)"
  by (auto simp: client_conn_def split: option.splits)

lemma eligible_iff:
  "eligible w p \<longleftrightarrow> (\<exists>cl c. heap w p = Some cl \<and> conns w (conn cl) = Some c \<and> \<not> closed c)"
  by (auto simp: eligible_def client_conn_def split: option.splits)

lemma ok_init: "world_ok init"
  by (simp add: world_ok_def heap_ok_def init_def eligible_iff)

lemma ok_same:
  assumes "world_ok w" "heap w' = heap w" "conns w' = conns w" "clients w' = clients w"
  shows "world_ok w'"
  using assms by (simp add: world_ok_def heap_ok_def eligible_iff)

lemma ok_closed:
  assumes i: "world_ok w" and h: "heap w p = Some cl" and c: "conns w (conn cl) = Some c"
    and h': "heap w' = heap w" and c': "conns w' = (conns w)(conn cl \<mapsto> d)" and d: "closed d"
    and r': "clients w' = clients_delete (clients w) p"
  shows "world_ok w'"
proof -
  from i have ok: "heap_ok w" and el: "\<And>q. entry w q \<noteq> None \<longleftrightarrow> eligible w q"
    by (simp_all add: world_ok_def)
  have ok': "heap_ok w'"
    using ok by (auto simp: heap_ok_def h' c')
  have "entry w' q \<noteq> None \<longleftrightarrow> eligible w' q" for q
  proof (cases "q = p")
    case True
    then show ?thesis by (simp add: r' lookup_clients_delete eligible_iff h' c' h d)
  next
    case False
    have "eligible w' q \<longleftrightarrow> eligible w q"
    proof (cases "heap w q")
      case None
      then show ?thesis by (simp add: eligible_iff h')
    next
      case (Some cl')
      with ok h False have "conn cl' \<noteq> conn cl" by (auto simp: heap_ok_def)
      with Some show ?thesis by (simp add: eligible_iff h' c')
    qed
    with False el [of q] show ?thesis by (simp add: r' lookup_clients_delete)
  qed
  with ok' show ?thesis by (simp add: world_ok_def)
qed

lemma ok_written:
  assumes i: "world_ok w" and c: "conns w ws = Some c"
    and h': "heap w' = heap w" and c': "conns w' = (conns w)(ws \<mapsto> d)" and d: "closed d = closed c"
    and r': "clients w' = clients w"
  shows "world_ok w'"
proof -
  from i have ok: "heap_ok w" and el: "\<And>q. entry w q \<noteq> None \<longleftrightarrow> eligible w q"
    by (simp_all add: world_ok_def)
  have ok': "heap_ok w'"
    using ok by (auto simp: heap_ok_def h' c')
  have "eligible w' q \<longleftrightarrow> eligible w q" for q
    using c d by (auto simp: eligible_iff h' c')
  with ok' el show ?thesis by (simp add: world_ok_def r')
qed

lemma ok_upgrade:
  assumes i: "world_ok w" and s: "handleConnections_upgrade r p w = Some w'"
  shows "world_ok w'"
proof (cases r)
  case (Inl err)
  with s have "w' = w\<lparr>alive := False, logs := logs w @ [err]\<rparr>"
    by (simp add: handleConnections_upgrade_def)
  with i show ?thesis by (simp add: ok_same)
next
  case (Inr ws)
  with s have fresh: "conns w ws = None" "heap w p = None"
    and w': "w' = w\<lparr>heap := (heap w)(p \<mapsto> \<lparr>conn = ws\<rparr>),
                   conns := (conns w)(ws \<mapsto> \<lparr>closed = False, written = []\<rparr>),
                   clients := clients_add (clients w) p,
                   workers := (workers w)(p \<mapsto> AtRead)\<rparr>"
    by (auto simp: handleConnections_upgrade_def split: if_splits)
  from i have ok: "heap_ok w" and el: "\<And>q. entry w q \<noteq> None \<longleftrightarrow> eligible w q"
    by (simp_all add: world_ok_def)
  have other: "conn cl \<noteq> ws" if "heap w q = Some cl" for q cl
  proof -
    from ok that have "conns w (conn cl) \<noteq> None" unfolding heap_ok_def by blast
    with fresh show ?thesis by auto
  qed
  have ok': "heap_ok w'"
    using ok fresh other by (auto simp: heap_ok_def w')
  have "entry w' q \<noteq> None \<longleftrightarrow> eligible w' q" for q
  proof (cases "q = p")
    case True
    then show ?thesis by (simp add: w' lookup_clients_add eligible_iff)
  next
    case False
    have "eligible w' q \<longleftrightarrow> eligible w q"
      using False other [of q] by (auto simp: eligible_iff w')
    with False el [of q] show ?thesis by (simp add: w' lookup_clients_add)
  qed
  with ok' show ?thesis by (simp add: world_ok_def)
qed

lemma ok_read:
  assumes i: "world_ok w" and s: "handleConnections_read p net w = Some w'"
  shows "world_ok w'"
proof -
  from s obtain ws c where cc: "client_conn w p = Some (ws, c)"
    by (auto simp: handleConnections_read_def split: option.splits worker.splits)
  then obtain cl where h: "heap w p = Some cl" and ws: "ws = conn cl" and c: "conns w (conn cl) = Some c"
    by (auto simp: client_conn_Some)
  show ?thesis
  proof (cases "ReadMessage c net")
    case (Inl err)
    with s cc have w': "w' = (log_Printf_error err w)
                            \<lparr>clients := clients_delete (clients w) p,
                             conns := (conns w)(ws \<mapsto> Close c),
                             workers := (workers w)(p \<mapsto> Exited)\<rparr>"
      by (auto simp: handleConnections_read_def split: option.splits worker.splits)
    show ?thesis
      by (rule ok_closed [OF i h c, where d = "Close c"])
         (simp_all add: w' ws log_Printf_error_def lookup_clients_delete Close_def)
  next
    case (Inr f)
    with s cc have "heap w' = heap w" "conns w' = conns w" "clients w' = clients w"
      by (auto simp: handleConnections_read_def split: option.splits worker.splits prod.splits)
    with i show ?thesis by (rule ok_same)
  qed
qed

lemma ok_send:
  assumes i: "world_ok w" and s: "handleConnections_send p w = Some w'"
  shows "world_ok w'"
proof -
  from s have "heap w' = heap w" "conns w' = conns w" "clients w' = clients w"
    by (auto simp: handleConnections_send_def split: option.splits worker.splits broadcaster.splits)
  with i show ?thesis by (rule ok_same)
qed

lemma ok_body:
  assumes i: "world_ok w"
  shows "world_ok (handleMessages_body net msg p w)"
proof (cases "client_conn w p")
  case None
  then have "handleMessages_body net msg p w = w\<lparr>alive := False\<rparr>"
    by (simp add: handleMessages_body_def)
  with i show ?thesis by (simp add: ok_same)
next
  case (Some a)
  then obtain ws c where cc: "client_conn w p = Some (ws, c)" by (cases a) auto
  then obtain cl where h: "heap w p = Some cl" and ws: "ws = conn cl" and c: "conns w (conn cl) = Some c"
    by (auto simp: client_conn_Some)
  show ?thesis
  proof (cases "WriteMessage c (net ws) TextMessage msg")
    case (Inl err)
    then have b: "handleMessages_body net msg p w =
                 (log_Printf_error err w)
                   \<lparr>conns := (conns w)(ws \<mapsto> Close c), clients := clients_delete (clients w) p\<rparr>"
      by (simp add: handleMessages_body_def cc)
    show ?thesis
      by (rule ok_closed [OF i h c, where d = "Close c"])
         (simp_all add: b ws log_Printf_error_def lookup_clients_delete Close_def)
  next
    case (Inr c')
    then have b: "handleMessages_body net msg p w = w\<lparr>conns := (conns w)(ws \<mapsto> c')\<rparr>"
      by (simp add: handleMessages_body_def cc)
    from Inr have "closed c' = closed c"
      by (auto simp: WriteMessage_def split: if_splits option.splits)
    then show ?thesis
      using c by (intro ok_written [OF i, where ws = ws and c = c and d = c']) (simp_all add: b ws)
  qed
qed

lemma ok_range: "world_ok w \<Longrightarrow> world_ok (handleMessages_range net msg ps w)"
  by (induction ps arbitrary: w) (simp_all add: ok_body)

lemma ok_round:
  assumes i: "world_ok w" and s: "handleMessages_round ps net w = Some w'"
  shows "world_ok w'"
proof -
  from s obtain msg where "w' = (handleMessages_range net msg ps w)\<lparr>hub := AtReceive\<rparr>"
    by (auto simp: handleMessages_round_def split: broadcaster.splits if_splits)
  with ok_range [OF i, of net msg ps] show ?thesis by (simp add: ok_same)
qed

lemma ok_step: "world_ok w \<Longrightarrow> step e w = Some w' \<Longrightarrow> world_ok w'"
  by (cases e) (auto simp: step_def split: if_splits intro: ok_upgrade ok_read ok_send ok_round)

lemma ok_run: "world_ok w \<Longrightarrow> run es w = Some w' \<Longrightarrow> world_ok w'"
  by (induction es arbitrary: w) (auto split: option.splits dest: ok_step)

section \<open>One broadcast round\<close>

lemma registered_conn:
  assumes "world_ok w" "entry w p \<noteq> None"
  obtains cl c where "heap w p = Some cl" "conns w (conn cl) = Some c" "\<not> closed c"
  using assms by (auto simp: world_ok_def eligible_iff)

lemma client_conn_other:
  assumes ok: "heap_ok w" and h: "heap w p = Some cl" and ne: "q \<noteq> p"
    and h': "heap w' = heap w" and c': "conns w' = (conns w)(conn cl \<mapsto> d)"
  shows "client_conn w' q = client_conn w q"
proof (cases "heap w q")
  case None
  then show ?thesis by (simp add: client_conn_def h')
next
  case (Some cl')
  with ok h ne have "conn cl' \<noteq> conn cl" unfolding heap_ok_def by blast
  with Some show ?thesis by (simp add: client_conn_def h' c')
qed

lemma body_effect:
  fixes net msg p w
  defines "w1 \<equiv> handleMessages_body net msg p w"
  assumes i: "world_ok w" and r: "entry w p \<noteq> None"
  shows "alive w1 = alive w" "workers w1 = workers w" "heap w1 = heap w" "hub w1 = hub w"
    and "q \<noteq> p \<Longrightarrow> entry w1 q = entry w q"
    and "q \<noteq> p \<Longrightarrow> client_conn w1 q = client_conn w q"
    and "write_fails net msg w p \<Longrightarrow> entry w1 p = None \<and> received w1 p = received w p
           \<and> length (logs w1) = Suc (length (logs w))"
    and "\<not> write_fails net msg w p \<Longrightarrow> entry w1 p = entry w p
           \<and> received w1 p = received w p @ [(TextMessage, msg)] \<and> logs w1 = logs w"
proof -
  from i r obtain cl c where h: "heap w p = Some cl" and c: "conns w (conn cl) = Some c"
    by (rule registered_conn)
  then have cc: "client_conn w p = Some (conn cl, c)" by (simp add: client_conn_def)
  from i have ok: "heap_ok w" by (simp add: world_ok_def)
  show "alive w1 = alive w" "workers w1 = workers w" "heap w1 = heap w" "hub w1 = hub w"
    and "q \<noteq> p \<Longrightarrow> entry w1 q = entry w q"
    by (simp_all add: w1_def handleMessages_body_def cc log_Printf_error_def lookup_clients_delete
        split: sum.splits)
  show "client_conn w1 q = client_conn w q" if "q \<noteq> p"
  proof (cases "WriteMessage c (net (conn cl)) TextMessage msg")
    case (Inl err)
    show ?thesis
      by (rule client_conn_other [OF ok h that, where d = "Close c"])
         (simp_all add: w1_def handleMessages_body_def cc Inl log_Printf_error_def)
  next
    case (Inr c')
    show ?thesis
      by (rule client_conn_other [OF ok h that, where d = c'])
         (simp_all add: w1_def handleMessages_body_def cc Inr)
  qed
  show "entry w1 p = None \<and> received w1 p = received w p
           \<and> length (logs w1) = Suc (length (logs w))" if "write_fails net msg w p"
  proof -
    from that cc obtain err where "WriteMessage c (net (conn cl)) TextMessage msg = Inl err"
      by (auto simp: write_fails_def isl_def)
    then have "w1 = (log_Printf_error err w)
                 \<lparr>conns := (conns w)(conn cl \<mapsto> Close c), clients := clients_delete (clients w) p\<rparr>"
      by (simp add: w1_def handleMessages_body_def cc)
    then show ?thesis
      by (simp add: log_Printf_error_def lookup_clients_delete received_def client_conn_def h c Close_def)
  qed
  show "entry w1 p = entry w p
           \<and> received w1 p = received w p @ [(TextMessage, msg)] \<and> logs w1 = logs w"
    if "\<not> write_fails net msg w p"
  proof -
    from that cc have w: "WriteMessage c (net (conn cl)) TextMessage msg =
        Inr (c\<lparr>written := written c @ [(TextMessage, msg)]\<rparr>)"
      by (auto simp: write_fails_def WriteMessage_def split: if_splits option.splits)
    then have "w1 = w\<lparr>conns := (conns w)(conn cl \<mapsto> c\<lparr>written := written c @ [(TextMessage, msg)]\<rparr>)\<rparr>"
      by (simp add: w1_def handleMessages_body_def cc)
    then show ?thesis
      by (simp add: received_def client_conn_def h c)
  qed
qed

lemma range_effect:
  fixes net msg ps w
  defines "w' \<equiv> handleMessages_range net msg ps w"
  assumes "world_ok w" "alive w" "distinct ps"
  shows "alive w' \<and> workers w' = workers w \<and> heap w' = heap w \<and> hub w' = hub w \<and>
         length (logs w') =
           length (logs w) + length [q \<leftarrow> ps. entry w q \<noteq> None \<and> write_fails net msg w q] \<and>
         (\<forall>q. q \<notin> set ps \<or> entry w q = None \<longrightarrow>
                entry w' q = entry w q \<and> client_conn w' q = client_conn w q) \<and>
         (\<forall>q. q \<in> set ps \<and> entry w q \<noteq> None \<longrightarrow>
              (if write_fails net msg w q
               then entry w' q = None \<and> received w' q = received w q
               else entry w' q = entry w q \<and>
                    received w' q = received w q @ [(TextMessage, msg)]))"
  using assms(2-4) unfolding w'_def
proof (induction ps arbitrary: w)
  case Nil
  then show ?case by simp
next
  case (Cons p ps)
  show ?case
  proof (cases "entry w p = None")
    case True
    with Cons.IH [of w] Cons.prems show ?thesis by auto
  next
    case False
    define w1 where "w1 = handleMessages_body net msg p w"
    note b = body_effect [where net = net and msg = msg, OF Cons.prems(1) False, folded w1_def]
    have i1: "world_ok w1" unfolding w1_def using Cons.prems(1) by (rule ok_body)
    have a1: "alive w1" using b(1) Cons.prems(2) by simp
    have d: "distinct ps" "p \<notin> set ps" using Cons.prems(3) by simp_all
    have same: "entry w1 q = entry w q \<and> write_fails net msg w1 q = write_fails net msg w q
               \<and> received w1 q = received w q" if "q \<noteq> p" for q
      using b(5,6) [OF that] by (simp add: write_fails_def received_def)
    have f: "[q \<leftarrow> ps. entry w1 q \<noteq> None \<and> write_fails net msg w1 q] =
             [q \<leftarrow> ps. entry w q \<noteq> None \<and> write_fails net msg w q]"
    proof (rule filter_cong [OF refl])
      fix x assume "x \<in> set ps"
      with d(2) have "x \<noteq> p" by auto
      from same [OF this]
      show "(entry w1 x \<noteq> None \<and> write_fails net msg w1 x) =
            (entry w x \<noteq> None \<and> write_fails net msg w x)" by simp
    qed
    have r: "handleMessages_range net msg (p # ps) w = handleMessages_range net msg ps w1"
      using False Cons.prems(2) by (auto simp: w1_def)
    note ih = Cons.IH [OF i1 a1 d(1), unfolded f]
    let ?w' = "handleMessages_range net msg ps w1"
    from ih b(1-4) have frame: "alive ?w'" "workers ?w' = workers w" "heap ?w' = heap w"
      "hub ?w' = hub w" by simp_all
    from ih have l: "length (logs ?w') = length (logs w1) +
        length [q \<leftarrow> ps. entry w q \<noteq> None \<and> write_fails net msg w q]" by simp
    from ih have un: "entry ?w' q = entry w1 q \<and> client_conn ?w' q = client_conn w1 q"
      if "q \<notin> set ps \<or> entry w1 q = None" for q using that by blast
    from ih have vi: "if write_fails net msg w1 q
               then entry ?w' q = None \<and> received ?w' q = received w1 q
               else entry ?w' q = entry w1 q \<and>
                    received ?w' q = received w1 q @ [(TextMessage, msg)]"
      if "q \<in> set ps" "entry w1 q \<noteq> None" for q using that by blast
    have logs: "length (logs ?w') = length (logs w) +
        length [q \<leftarrow> p # ps. entry w q \<noteq> None \<and> write_fails net msg w q]"
      using l b(7,8) False by (cases "write_fails net msg w p") simp_all
    have unvisited: "entry ?w' q = entry w q \<and> client_conn ?w' q = client_conn w q"
      if q: "q \<notin> set (p # ps) \<or> entry w q = None" for q
    proof -
      from q False have ne: "q \<noteq> p" by auto
      with q same [OF ne] have "q \<notin> set ps \<or> entry w1 q = None" by auto
      from un [OF this] same [OF ne] b(6) [OF ne] show ?thesis by simp
    qed
    have visited: "if write_fails net msg w q
            then entry ?w' q = None \<and> received ?w' q = received w q
            else entry ?w' q = entry w q \<and>
                 received ?w' q = received w q @ [(TextMessage, msg)]"
      if q: "q \<in> set (p # ps) \<and> entry w q \<noteq> None" for q
    proof (cases "q = p")
      case True
      from un [of p] d(2) have "entry ?w' p = entry w1 p" "client_conn ?w' p = client_conn w1 p"
        by simp_all
      then have "received ?w' p = received w1 p" "entry ?w' p = entry w1 p"
        by (simp_all add: received_def)
      with True b(7,8) show ?thesis by (cases "write_fails net msg w p") simp_all
    next
      case ne: False
      with q have "q \<in> set ps" "entry w1 q \<noteq> None" using same [OF ne] by auto
      from vi [OF this] same [OF ne] show ?thesis by simp
    qed
    show ?thesis
      unfolding r using frame logs unvisited visited by blast
  qed
qed

lemma client_conn_cong:
  "heap w' = heap w \<Longrightarrow> conns w' = conns w \<Longrightarrow> client_conn w' p = client_conn w p"
  by (auto simp: client_conn_def split: option.splits)

lemma round_enabled:
  assumes "alive w" "hub w = AtRange msg" "distinct ps" "set ps = Mapping.keys (clients w)"
  shows "step (Round ps net) w = Some ((handleMessages_range net msg ps w)\<lparr>hub := AtReceive\<rparr>)"
  using assms by (simp add: step_def handleMessages_round_def)

lemma ok_reachable: "run es init = Some w \<Longrightarrow> world_ok w"
  using ok_init by (rule ok_run)

lemma registry_inv_ok:
  assumes "world_ok w"
  shows "registry_inv w"
proof -
  from assms have ok: "heap_ok w" and el: "\<And>q. entry w q \<noteq> None \<longleftrightarrow> eligible w q"
    by (simp_all add: world_ok_def)
  have "p = q" if "entry w p \<noteq> None" "entry w q \<noteq> None" "conn_of w p = conn_of w q" for p q
  proof -
    from that(1,2) el obtain cl c cl' c' where
      "heap w p = Some cl" "conns w (conn cl) = Some c" "heap w q = Some cl'" "conns w (conn cl') = Some c'"
      by (auto simp: eligible_iff)
    with that(3) ok show ?thesis
      unfolding heap_ok_def by (auto simp: conn_of_def client_conn_def)
  qed
  with el show ?thesis unfolding registry_inv_def by blast
qed

lemma round_effect:
  assumes ok: "world_ok w" and st: "step (Round ps net) w = Some w'"
    and m: "hub w = AtRange msg"
  shows "(\<forall>p. entry w' p = (if write_fails net msg w p then None else entry w p)) \<and>
         (\<forall>p. received w' p =
               (if entry w p \<noteq> None \<and> \<not> write_fails net msg w p
                then received w p @ [(TextMessage, msg)] else received w p)) \<and>
         workers w' = workers w \<and> alive w' \<and>
         length (logs w') = length (logs w) + card {p. entry w p \<noteq> None \<and> write_fails net msg w p}"
proof -
  from st m have a: "alive w" and d: "distinct ps" and k: "set ps = Mapping.keys (clients w)"
    and w': "w' = (handleMessages_range net msg ps w)\<lparr>hub := AtReceive\<rparr>"
    by (auto simp: step_def handleMessages_round_def split: if_splits)
  have mem: "q \<in> set ps \<longleftrightarrow> entry w q \<noteq> None" for q
    by (simp add: k keys_dom_lookup domIff)
  note r = range_effect [where net = net and msg = msg, OF ok a d]
  let ?v = "handleMessages_range net msg ps w"
  have "client_conn w' q = client_conn ?v q" for q
    by (rule client_conn_cong) (simp_all add: w')
  then have f: "entry w' q = entry ?v q" "received w' q = received ?v q" for q
    by (simp_all add: w' received_def)
  have 1: "entry w' p = (if write_fails net msg w p then None else entry w p)" for p
  proof (cases "entry w p = None")
    case True
    with r have "entry ?v p = entry w p" by blast
    with True show ?thesis by (simp add: f)
  next
    case False
    with mem r have "if write_fails net msg w p then entry ?v p = None else entry ?v p = entry w p"
      by (auto split: if_splits)
    then show ?thesis by (simp add: f split: if_splits)
  qed
  have 2: "received w' p = (if entry w p \<noteq> None \<and> \<not> write_fails net msg w p
                then received w p @ [(TextMessage, msg)] else received w p)" for p
  proof (cases "entry w p = None")
    case True
    with r have "client_conn ?v p = client_conn w p" by blast
    then have "received ?v p = received w p" by (simp add: received_def)
    with True show ?thesis by (simp add: f)
  next
    case False
    with mem r have "if write_fails net msg w p then received ?v p = received w p
        else received ?v p = received w p @ [(TextMessage, msg)]"
      by (auto split: if_splits)
    with False show ?thesis by (simp add: f split: if_splits)
  qed
  have 3: "workers w' = workers w" "alive w'"
    using r by (simp_all add: w')
  have "{p. entry w p \<noteq> None \<and> write_fails net msg w p} =
        set [q \<leftarrow> ps. entry w q \<noteq> None \<and> write_fails net msg w q]"
    using mem by auto
  moreover have "card (set [q \<leftarrow> ps. entry w q \<noteq> None \<and> write_fails net msg w q]) =
        length [q \<leftarrow> ps. entry w q \<noteq> None \<and> write_fails net msg w q]"
    using d by (intro distinct_card distinct_filter)
  ultimately have "card {p. entry w p \<noteq> None \<and> write_fails net msg w p} =
        length [q \<leftarrow> ps. entry w q \<noteq> None \<and> write_fails net msg w q]"
    by simp
  with r have 4: "length (logs w') =
      length (logs w) + card {p. entry w p \<noteq> None \<and> write_fails net msg w p}"
    by (simp add: w')
  from 1 2 3 4 show ?thesis by blast
qed

section \<open>Goroutines and their clients\<close>

lemma run_invariant:
  assumes step: "\<And>e w w'. P w \<Longrightarrow> step e w = Some w' \<Longrightarrow> P w'"
    and "P w" and "run es w = Some w'"
  shows "P w'"
  using assms(2,3)
proof (induction es arbitrary: w)
  case Nil
  then show ?case by simp
next
  case (Cons e es)
  then obtain w1 where "step e w = Some w1" "run es w1 = Some w'"
    by (auto split: option.splits)
  with Cons.IH [of w1] step [OF Cons.prems(1)] show ?case by blast
qed

lemma body_frame:
  "workers (handleMessages_body net msg p w) = workers w \<and>
   heap (handleMessages_body net msg p w) = heap w \<and>
   hub (handleMessages_body net msg p w) = hub w"
  by (simp add: handleMessages_body_def log_Printf_error_def split: option.splits sum.splits)

lemma range_frame:
  "workers (handleMessages_range net msg ps w) = workers w \<and>
   heap (handleMessages_range net msg ps w) = heap w \<and>
   hub (handleMessages_range net msg ps w) = hub w"
  by (induction ps arbitrary: w) (simp_all add: body_frame)

lemma round_frame:
  assumes "step (Round ps net) w = Some w'"
  shows "workers w' = workers w" "heap w' = heap w" "hub w' = AtReceive"
  using assms
  by (auto simp: step_def handleMessages_round_def range_frame split: if_splits broadcaster.splits)

lemma worker_has_client_step:
  assumes P: "\<forall>p. workers w p \<noteq> None \<longrightarrow> heap w p \<noteq> None" and s: "step e w = Some w'"
  shows "\<forall>p. workers w' p \<noteq> None \<longrightarrow> heap w' p \<noteq> None"
proof (cases e)
  case (Request r p)
  with s P show ?thesis
    by (auto simp: step_def handleConnections_upgrade_def split: if_splits sum.splits)
next
  case (Read p net)
  with s have "heap w' = heap w" "\<forall>q. q \<noteq> p \<longrightarrow> workers w' q = workers w q" "workers w p \<noteq> None"
    by (auto simp: step_def handleConnections_read_def log_Printf_error_def
        split: if_splits option.splits worker.splits sum.splits)
  with P show ?thesis by metis
next
  case (Send p)
  with s have "heap w' = heap w" "\<forall>q. q \<noteq> p \<longrightarrow> workers w' q = workers w q" "workers w p \<noteq> None"
    by (auto simp: step_def handleConnections_send_def
        split: if_splits option.splits worker.splits broadcaster.splits)
  with P show ?thesis by metis
next
  case (Round ps net)
  with s round_frame [of ps net w w'] P show ?thesis by simp
qed

lemma worker_has_client:
  assumes "run es init = Some w" "workers w p \<noteq> None"
  shows "heap w p \<noteq> None"
proof -
  have "\<forall>p. workers w p \<noteq> None \<longrightarrow> heap w p \<noteq> None"
    by (rule run_invariant [where P = "\<lambda>w. \<forall>p. workers w p \<noteq> None \<longrightarrow> heap w p \<noteq> None", OF _ _ assms(1)])
       (erule (1) worker_has_client_step, simp add: init_def)
  with assms(2) show ?thesis by blast
qed

lemma delete_absent: "Mapping.lookup m p = None \<Longrightarrow> clients_delete m p = m"
  unfolding clients_delete_def by transfer auto

lemma send_step:
  assumes "alive w" "workers w p = Some (AtSend msg)"
  shows "step (Send p) w =
     (case hub w of
        AtReceive \<Rightarrow> Some (w\<lparr>hub := AtRange msg, workers := (workers w)(p \<mapsto> AtRead)\<rparr>)
      | AtRange m \<Rightarrow> None)"
  using assms by (simp add: step_def handleConnections_send_def)

section \<open>What the peers are sent\<close>

lemma received_conn_upd:
  assumes "heap w' = heap w" "conns w' = (conns w)(ws \<mapsto> d)" "conns w ws = Some c"
    "written d = written c"
  shows "received w' q = received w q"
  using assms by (auto simp: received_def client_conn_def split: option.splits)

lemma received_cong:
  "heap w' = heap w \<Longrightarrow> conns w' = conns w \<Longrightarrow> received w' q = received w q"
  by (simp add: received_def client_conn_cong [of w' w])

lemma received_request:
  assumes ok: "world_ok w" and s: "step (Request r p) w = Some w'"
  shows "received w' q = received w q"
proof (cases r)
  case (Inl err)
  with s have "w' = w\<lparr>alive := False, logs := logs w @ [err]\<rparr>"
    by (auto simp: step_def handleConnections_upgrade_def split: if_splits)
  then have "heap w' = heap w" "conns w' = conns w" by simp_all
  then show ?thesis by (rule received_cong)
next
  case (Inr ws)
  with s have fresh: "conns w ws = None" "heap w p = None"
    and h': "heap w' = (heap w)(p \<mapsto> \<lparr>conn = ws\<rparr>)"
    and c': "conns w' = (conns w)(ws \<mapsto> \<lparr>closed = False, written = []\<rparr>)"
    by (auto simp: step_def handleConnections_upgrade_def split: if_splits)
  show ?thesis
  proof (cases "q = p")
    case True
    with fresh h' c' show ?thesis by (simp add: received_def client_conn_def)
  next
    case False
    show ?thesis
    proof (cases "heap w q")
      case None
      with False h' show ?thesis by (simp add: received_def client_conn_def)
    next
      case (Some cl)
      with ok have "conns w (conn cl) \<noteq> None" unfolding world_ok_def heap_ok_def by blast
      with fresh have "conn cl \<noteq> ws" by auto
      with Some False h' c' show ?thesis by (simp add: received_def client_conn_def)
    qed
  qed
qed

lemma read_cases:
  assumes s: "step (Read p net) w = Some w'"
  obtains (fail) ws c err where "workers w p = Some AtRead" "client_conn w p = Some (ws, c)"
      "ReadMessage c net = Inl err"
      "w' = (log_Printf_error err w)
              \<lparr>clients := clients_delete (clients w) p,
               conns := (conns w)(ws \<mapsto> Close c),
               workers := (workers w)(p \<mapsto> Exited)\<rparr>"
    | (frame) t msg where "workers w p = Some AtRead" "net = Inr (t, msg)"
      "w' = w\<lparr>workers := (workers w)(p \<mapsto> AtSend msg)\<rparr>"
  using s
  by (auto simp: step_def handleConnections_read_def ReadMessage_def
      split: if_splits option.splits worker.splits sum.splits)

lemma received_read:
  assumes s: "step (Read p net) w = Some w'"
  shows "received w' q = received w q"
  using s
proof (cases rule: read_cases)
  case (fail ws c err)
  from fail(2) have "conns w ws = Some c" by (auto simp: client_conn_Some)
  then show ?thesis
    by (rule received_conn_upd [where d = "Close c", rotated 2])
       (simp_all add: fail(4) log_Printf_error_def Close_def)
next
  case (frame t msg)
  then have "heap w' = heap w" "conns w' = conns w" by simp_all
  then show ?thesis by (rule received_cong)
qed

lemma send_cases:
  assumes s: "step (Send p) w = Some w'"
  obtains msg where "workers w p = Some (AtSend msg)" "hub w = AtReceive"
    "w' = w\<lparr>hub := AtRange msg, workers := (workers w)(p \<mapsto> AtRead)\<rparr>"
  using s
  by (auto simp: step_def handleConnections_send_def
      split: if_splits option.splits worker.splits broadcaster.splits)

lemma received_send:
  assumes s: "step (Send p) w = Some w'"
  shows "received w' q = received w q"
  using s
proof (cases rule: send_cases)
  case (1 msg)
  then have "heap w' = heap w" "conns w' = conns w" by simp_all
  then show ?thesis by (rule received_cong)
qed

lemma round_cases:
  assumes s: "step (Round ps net) w = Some w'"
  obtains msg where "hub w = AtRange msg" "alive w"
  using s by (auto simp: step_def handleMessages_round_def split: if_splits broadcaster.splits)

lemma step_received:
  assumes ok: "world_ok w" and s: "step e w = Some w'"
  shows "received w' q = received w q \<or>
         (\<exists>msg. hub w = AtRange msg \<and> received w' q = received w q @ [(TextMessage, msg)])"
proof (cases e)
  case (Request r p)
  with received_request [OF ok] s show ?thesis by simp
next
  case (Read p net)
  with received_read s show ?thesis by simp
next
  case (Send p)
  with received_send s show ?thesis by simp
next
  case (Round ps net)
  with s have r: "step (Round ps net) w = Some w'" by simp
  then obtain msg where m: "hub w = AtRange msg" by (rule round_cases)
  from round_effect [OF ok r m]
  have "received w' q = (if entry w q \<noteq> None \<and> \<not> write_fails net msg w q
                then received w q @ [(TextMessage, msg)] else received w q)" by blast
  with m show ?thesis by (auto split: if_splits)
qed

lemma text_only_step:
  assumes P: "world_ok w \<and> text_only w" and s: "step e w = Some w'"
  shows "world_ok w' \<and> text_only w'"
proof
  from P s show "world_ok w'" by (blast intro: ok_step)
  show "text_only w'"
    unfolding text_only_def
  proof (intro allI ballI)
    fix p f assume f: "f \<in> set (received w' p)"
    from P have ok: "world_ok w" ..
    from step_received [OF ok s, of p] f P show "fst f = TextMessage"
      by (auto simp: text_only_def)
  qed
qed

section \<open>The order of messages\<close>

lemma sent_by_append: "sent_by a (es @ es') = sent_by a es @ sent_by a es'"
  by (induction a es rule: sent_by.induct) simp_all

lemma tagged_append: "tagged origin (es @ es') \<longleftrightarrow> tagged origin es \<and> tagged origin es'"
  by (induction origin es rule: tagged.induct) simp_all

lemma run_append:
  "run (es @ es') w = (case run es w of None \<Rightarrow> None | Some w1 \<Rightarrow> run es' w1)"
  by (induction es arbitrary: w) (simp_all split: option.splits)

lemma request_cases:
  assumes s: "step (Request r p) w = Some w'"
  obtains (fatal) err where "r = Inl err" "w' = w\<lparr>alive := False, logs := logs w @ [err]\<rparr>"
    | (accept) ws where "r = Inr ws"
      "w' = w\<lparr>heap := (heap w)(p \<mapsto> \<lparr>conn = ws\<rparr>),
              conns := (conns w)(ws \<mapsto> \<lparr>closed = False, written = []\<rparr>),
              clients := clients_add (clients w) p,
              workers := (workers w)(p \<mapsto> AtRead)\<rparr>"
  using s
  by (cases r) (auto simp: step_def handleConnections_upgrade_def split: if_splits)

lemma subseq_keep:
  assumes "subseq (xs @ ys) zs" "subseq ys' ys"
  shows "subseq (xs @ ys') zs"
proof -
  from assms(2) have "subseq (xs @ ys') (xs @ ys)" by (simp add: subseq_append')
  with assms(1) show ?thesis by (rule subseq_order.trans [rotated])
qed

lemma order_inv_step:
  assumes J: "order_inv origin a es w" and s: "step e w = Some w'" and t: "tagged origin [e]"
  shows "order_inv origin a (es @ [e]) w'"
proof -
  from J have ok: "world_ok w"
    and og: "\<And>p m. workers w p = Some (AtSend m) \<Longrightarrow> origin m = p"
    and sb: "\<And>r. subseq (from_source origin a (received w r) @ in_flight origin a w) (sent_by a es)"
    by (auto simp: order_inv_def)
  from ok s have ok': "world_ok w'" by (rule ok_step)
  show ?thesis
  proof (cases e)
    case (Request r p)
    with s have st: "step (Request r p) w = Some w'" by simp
    have re: "received w' q = received w q" for q
      using ok st by (rule received_request)
    have sn: "sent_by a (es @ [e]) = sent_by a es"
      by (simp add: sent_by_append Request)
    from st have "(\<forall>q m. workers w' q = Some (AtSend m) \<longrightarrow> workers w q = Some (AtSend m)) \<and>
        hub w' = hub w"
      by (cases rule: request_cases) auto
    then have wk: "\<And>q m. workers w' q = Some (AtSend m) \<Longrightarrow> workers w q = Some (AtSend m)"
      and hb: "hub w' = hub w" by blast+
    have "subseq (in_flight origin a w') (in_flight origin a w)"
      using wk [of a] hb
      by (auto simp: in_flight_def split: option.splits worker.splits)
    with sb have "subseq (from_source origin a (received w' q) @ in_flight origin a w') (sent_by a (es @ [e]))" for q
      unfolding re sn by (rule subseq_keep)
    with ok' og wk show ?thesis unfolding order_inv_def by blast
  next
    case (Read p net)
    with s have st: "step (Read p net) w = Some w'" by simp
    have re: "received w' q = received w q" for q
      using st by (rule received_read)
    from st show ?thesis
    proof (cases rule: read_cases)
      case (fail ws c err)
      then have wk: "\<And>q m. workers w' q = Some (AtSend m) \<Longrightarrow> workers w q = Some (AtSend m)"
        and hb: "hub w' = hub w"
        by (auto simp: log_Printf_error_def split: if_splits)
      have "subseq (in_flight origin a w') (in_flight origin a w)"
        using wk [of a] hb
        by (auto simp: in_flight_def split: option.splits worker.splits)
      with sb have "subseq (from_source origin a (received w' q) @ in_flight origin a w') (sent_by a es)" for q
        unfolding re by (rule subseq_keep)
      then have "subseq (from_source origin a (received w' q) @ in_flight origin a w') (sent_by a (es @ [e]))" for q
        by (simp add: sent_by_append subseq_rev_drop_many)
      with ok' og wk show ?thesis unfolding order_inv_def by blast
    next
      case (frame ty msg)
      from t Read frame have tg: "origin msg = p" by simp
      have og': "origin m = q" if "workers w' q = Some (AtSend m)" for q m
        using that og [of q m] tg frame by (auto split: if_splits)
      have hb: "hub w' = hub w" by (simp add: frame)
      have "subseq (from_source origin a (received w' q) @ in_flight origin a w') (sent_by a (es @ [e]))" for q
      proof (cases "p = a")
        case True
        with frame have f: "in_flight origin a w = (case hub w of AtRange m \<Rightarrow> if origin m = a then [m] else [] | AtReceive \<Rightarrow> [])"
          "in_flight origin a w' = in_flight origin a w @ [msg]"
          by (simp_all add: in_flight_def)
        have sn: "sent_by a (es @ [e]) = sent_by a es @ [msg]"
          using True by (simp add: sent_by_append Read frame)
        from sb [of q] have "subseq ((from_source origin a (received w q) @ in_flight origin a w) @ [msg]) (sent_by a es @ [msg])"
          by (intro list_emb_append_mono) simp_all
        then show ?thesis by (simp add: re f(2) sn)
      next
        case False
        with frame have f: "in_flight origin a w' = in_flight origin a w"
          by (simp add: in_flight_def)
        have sn: "sent_by a (es @ [e]) = sent_by a es"
          using False by (simp add: sent_by_append Read frame)
        from sb [of q] show ?thesis by (simp add: re f sn)
      qed
      with ok' og' show ?thesis unfolding order_inv_def by blast
    qed
  next
    case (Send p)
    with s have st: "step (Send p) w = Some w'" by simp
    have re: "received w' q = received w q" for q
      using st by (rule received_send)
    have sn: "sent_by a (es @ [e]) = sent_by a es"
      by (simp add: sent_by_append Send)
    from st show ?thesis
    proof (cases rule: send_cases)
      case (1 msg)
      from og 1(1) have tg: "origin msg = p" by blast
      have og': "origin m = q" if "workers w' q = Some (AtSend m)" for q m
        using that og [of q m] 1 by (auto split: if_splits)
      have "in_flight origin a w' = in_flight origin a w"
        using 1 tg by (auto simp: in_flight_def)
      with sb have "subseq (from_source origin a (received w' q) @ in_flight origin a w') (sent_by a (es @ [e]))" for q
        by (simp add: re sn)
      with ok' og' show ?thesis unfolding order_inv_def by blast
    qed
  next
    case (Round ps net)
    with s have st: "step (Round ps net) w = Some w'" by simp
    then obtain msg where m: "hub w = AtRange msg" by (rule round_cases)
    have sn: "sent_by a (es @ [e]) = sent_by a es"
      by (simp add: sent_by_append Round)
    from round_frame [OF st] have wk: "workers w' = workers w" and hb: "hub w' = AtReceive"
      by simp_all
    from wk og have og': "origin m = q" if "workers w' q = Some (AtSend m)" for q m
      using that by simp
    let ?K = "case workers w a of Some (AtSend m) \<Rightarrow> [m] | _ \<Rightarrow> []"
    let ?H = "if origin msg = a then [msg] else []"
    have f: "in_flight origin a w = ?H @ ?K" "in_flight origin a w' = ?K"
      by (simp_all add: in_flight_def m hb wk)
    from round_effect [OF ok st m]
    have rc: "received w' q = received w q \<or> received w' q = received w q @ [(TextMessage, msg)]" for q
      by (auto split: if_splits)
    have "subseq (from_source origin a (received w' q) @ in_flight origin a w') (sent_by a (es @ [e]))" for q
    proof -
      from rc [of q] have "subseq (from_source origin a (received w' q) @ ?K)
          (from_source origin a (received w q) @ ?H @ ?K)"
      proof
        assume "received w' q = received w q"
        then show ?thesis by (auto simp: subseq_append')
      next
        assume "received w' q = received w q @ [(TextMessage, msg)]"
        then show ?thesis by (simp add: from_source_def)
      qed
      with sb [of q] show ?thesis
        unfolding f sn by (rule subseq_order.trans [rotated])
    qed
    with ok' og' show ?thesis unfolding order_inv_def by blast
  qed
qed

lemma order_inv_run:
  "run es init = Some w \<Longrightarrow> tagged origin es \<Longrightarrow> order_inv origin a es w"
proof (induction es arbitrary: w rule: rev_induct)
  case Nil
  then have "w = init" by simp
  then show ?case
    by (simp add: order_inv_def ok_init)
       (simp add: init_def in_flight_def from_source_def received_def client_conn_def)
next
  case (snoc e es)
  from snoc.prems(1) obtain w1 where 1: "run es init = Some w1" and 2: "step e w1 = Some w"
    by (auto simp: run_append split: option.splits)
  from snoc.prems(2) have "tagged origin es" "tagged origin [e]"
    by (simp_all add: tagged_append)
  with snoc.IH [OF 1] 2 show ?case by (blast intro: order_inv_step)
qed

section \<open>Payloads are opaque\<close>

lemma map_world_simps [simp]:
  "alive (map_world f w) = alive w"
  "heap (map_world f w) = heap w"
  "clients (map_world f w) = clients w"
  "logs (map_world f w) = logs w"
  "conns (map_world f w) k = map_option (map_conn f) (conns w k)"
  "workers (map_world f w) p = map_option (map_worker f) (workers w p)"
  "hub (map_world f w) = map_broadcaster f (hub w)"
  by (simp_all add: map_world_def)

lemma map_conn_simps [simp]:
  "closed (map_conn f c) = closed c"
  "written (map_conn f c) = map (map_prod id f) (written c)"
  by (simp_all add: map_conn_def)

lemma client_conn_map_world:
  "client_conn (map_world f w) p = map_option (map_prod id (map_conn f)) (client_conn w p)"
  by (simp add: client_conn_def split: option.splits)

lemma world_eqI:
  fixes v w :: world
  assumes "alive v = alive w" "heap v = heap w" "\<And>k. conns v k = conns w k"
    "clients v = clients w" "\<And>p. workers v p = workers w p" "hub v = hub w" "logs v = logs w"
  shows "v = w"
  using assms by (intro world.equality ext) simp_all

lemma map_upgrade:
  "handleConnections_upgrade r p (map_world f w) =
   map_option (map_world f) (handleConnections_upgrade r p w)"
proof (cases r)
  case (Inl err)
  show ?thesis
    unfolding Inl handleConnections_upgrade_def
    by (simp, rule world_eqI) simp_all
next
  case (Inr ws)
  show ?thesis
  proof (cases "conns w ws \<noteq> None \<or> heap w p \<noteq> None")
    case True
    then show ?thesis by (auto simp: Inr handleConnections_upgrade_def)
  next
    case False
    then show ?thesis
      unfolding Inr handleConnections_upgrade_def
      by (simp, intro world_eqI) (simp_all add: map_conn_def)
  qed
qed

lemma map_read:
  "handleConnections_read p (map_sum id (map_prod id f) net) (map_world f w) =
   map_option (map_world f) (handleConnections_read p net w)"
proof (cases "workers w p = Some AtRead")
  case False
  then show ?thesis
    by (auto simp: handleConnections_read_def split: option.splits worker.splits)
next
  case rd: True
  show ?thesis
  proof (cases "client_conn w p")
    case None
    with rd show ?thesis by (simp add: handleConnections_read_def client_conn_map_world)
  next
    case (Some a)
    then obtain ws c where cc: "client_conn w p = Some (ws, c)" by (cases a) auto
    show ?thesis
    proof (cases "ReadMessage c net")
      case (Inl err)
      then have "ReadMessage (map_conn f c) (map_sum id (map_prod id f) net) = Inl err"
        by (cases net) (auto simp: ReadMessage_def split: if_splits)
      with Inl rd cc show ?thesis
        unfolding handleConnections_read_def
        by (simp add: client_conn_map_world, intro world_eqI)
           (simp_all add: log_Printf_error_def Close_def map_conn_def)
    next
      case (Inr fr)
      obtain t m where fr: "fr = (t, m)" by (cases fr)
      from Inr have "ReadMessage (map_conn f c) (map_sum id (map_prod id f) net) = Inr (t, f m)"
        by (cases net) (auto simp: ReadMessage_def fr split: if_splits)
      with Inr rd cc show ?thesis
        unfolding handleConnections_read_def
        by (simp add: client_conn_map_world fr, intro world_eqI) simp_all
    qed
  qed
qed

lemma map_send:
  "handleConnections_send p (map_world f w) = map_option (map_world f) (handleConnections_send p w)"
proof (cases "workers w p")
  case None
  then show ?thesis by (simp add: handleConnections_send_def)
next
  case (Some k)
  show ?thesis
  proof (cases k)
    case (AtSend m)
    show ?thesis
    proof (cases "hub w")
      case AtReceive
      with Some AtSend show ?thesis
        unfolding handleConnections_send_def
        by (simp, intro world_eqI) simp_all
    next
      case (AtRange m')
      with Some AtSend show ?thesis by (simp add: handleConnections_send_def)
    qed
  qed (use Some in \<open>simp_all add: handleConnections_send_def\<close>)
qed

lemma map_body:
  "handleMessages_body net (f msg) p (map_world f w) = map_world f (handleMessages_body net msg p w)"
proof (cases "client_conn w p")
  case None
  then show ?thesis
    unfolding handleMessages_body_def
    by (simp add: client_conn_map_world, intro world_eqI) simp_all
next
  case (Some a)
  then obtain ws c where cc: "client_conn w p = Some (ws, c)" by (cases a) auto
  show ?thesis
  proof (cases "WriteMessage c (net ws) TextMessage msg")
    case (Inl err)
    then have "WriteMessage (map_conn f c) (net ws) TextMessage (f msg) = Inl err"
      by (auto simp: WriteMessage_def split: if_splits option.splits)
    with Inl cc show ?thesis
      unfolding handleMessages_body_def
      by (simp add: client_conn_map_world, intro world_eqI)
         (simp_all add: log_Printf_error_def Close_def map_conn_def)
  next
    case (Inr c')
    then have "WriteMessage (map_conn f c) (net ws) TextMessage (f msg) = Inr (map_conn f c')"
      by (auto simp: WriteMessage_def map_conn_def split: if_splits option.splits)
    with Inr cc show ?thesis
      unfolding handleMessages_body_def
      by (simp add: client_conn_map_world, intro world_eqI) simp_all
  qed
qed

lemma map_range:
  "handleMessages_range net (f msg) ps (map_world f w) =
   map_world f (handleMessages_range net msg ps w)"
  by (induction ps arbitrary: w) (simp_all add: map_body)

lemma map_round:
  "handleMessages_round ps net (map_world f w) = map_option (map_world f) (handleMessages_round ps net w)"
proof (cases "hub w")
  case AtReceive
  then show ?thesis by (simp add: handleMessages_round_def)
next
  case (AtRange msg)
  show ?thesis
  proof (cases "distinct ps \<and> set ps = Mapping.keys (clients w)")
    case True
    have "(handleMessages_range net (f msg) ps (map_world f w))\<lparr>hub := AtReceive\<rparr> =
          map_world f ((handleMessages_range net msg ps w)\<lparr>hub := AtReceive\<rparr>)"
      unfolding map_range by (rule world_eqI) simp_all
    with True AtRange show ?thesis by (simp add: handleMessages_round_def)
  next
    case False
    with AtRange show ?thesis by (auto simp: handleMessages_round_def)
  qed
qed

lemma map_step:
  "step (map_event f e) (map_world f w) = map_option (map_world f) (step e w)"
  by (cases e) (simp_all add: step_def map_upgrade map_read map_send map_round)

lemma map_run:
  "run (map (map_event f) es) (map_world f w) = map_option (map_world f) (run es w)"
proof (induction es arbitrary: w)
  case Nil
  then show ?case by simp
next
  case (Cons e es)
  show ?case
    by (cases "step e w") (simp_all add: map_step Cons.IH)
qed

lemma map_world_init: "map_world f init = init"
  by (rule world_eqI) (simp_all add: init_def)

lemma source_tag: "source (tag p m) = p"
  by (simp add: source_def tag_def takeWhile_append)

lemma untag_tag: "untag (tag p m) = m"
  by (simp add: untag_def tag_def dropWhile_append)

lemma untag_tag_reads: "map (map_event untag) (tag_reads es) = es"
  by (induction es rule: tag_reads.induct) (simp_all add: untag_tag)

lemma tagged_tag_reads: "tagged source (tag_reads es)"
  by (induction es rule: tag_reads.induct) (simp_all add: source_tag)

lemma sent_by_tag_reads: "sent_by a (tag_reads es) = map (tag a) (sent_by a es)"
  by (induction es rule: tag_reads.induct) simp_all

lemma run_tag_reads:
  assumes "run es init = Some w"
  obtains w' where "run (tag_reads es) init = Some w'" "map_world untag w' = w"
proof -
  from map_run [of untag "tag_reads es" init]
  have "run es init = map_option (map_world untag) (run (tag_reads es) init)"
    by (simp add: untag_tag_reads map_world_init)
  with assms that show ?thesis by (cases "run (tag_reads es) init") auto
qed

lemma received_map_world:
  "received (map_world f w) p = map (map_prod id f) (received w p)"
  by (simp add: received_def client_conn_map_world split: option.splits)

lemma subseq_untag:
  assumes "subseq xs (map (tag a) ys)"
  shows "subseq (map untag xs) ys"
proof -
  from assms have "subseq (map untag xs) (map untag (map (tag a) ys))" by (rule subseq_map)
  then show ?thesis by (simp add: untag_tag comp_def)
qed

section \<open>The properties\<close>

text \<open>
  C1. The claim is that a failed upgrade is reported for that request only and the server goes
  on serving. The code does otherwise: on the error of \<open>upgrader.Upgrade\<close>,
  \<open>log.Fatal\<close> ends the process. The step of a failed upgrade leaves a world that is not
  alive, in which no event can happen; a client that connects after a failed handshake is not
  served.
\<close>

theorem upgrade_failure_exits_process:
  "step (Request (Inl err) p) w =
     (if alive w then Some (w\<lparr>alive := False, logs := logs w @ [err]\<rparr>) else None) \<and>
   step e (w\<lparr>alive := False, logs := logs w @ [err]\<rparr>) = None \<and>
   alive_after [Request (Inr 11) 1, Request (Inl ''bad handshake'') 2] = Some False \<and>
   run [Request (Inr 11) 1, Request (Inl ''bad handshake'') 2, Request (Inr 12) 3] init = None"
  by (simp add: alive_after_def model_defs)



text \<open>
  C3, as the claim states it: with three clients connected and the first sending
  \<open>"hello"\<close>, the first would receive nothing. It receives one copy.
\<close>

theorem self_echo_counterexample:
  "received_after (three_clients_one_sends @ [Round [1, 2, 3] Map.empty]) 1 = Some [(TextMessage, hello)] \<and>
   received_after (three_clients_one_sends @ [Round [1, 2, 3] Map.empty]) 1 \<noteq> Some []"
  by (simp add: received_after_def scenario_defs model_defs received_def insert_commute)

text \<open>
  C3, amended. When a client sends a message, every client in the registry whose write
  succeeds is sent exactly one copy of it, and the sender, being in the registry, is one of
  them; a client that is not in the registry, or whose write fails, is sent nothing.
\<close>

theorem broadcast_echoes_to_sender:
  assumes reach: "run es init = Some w"
    and s: "workers w s = Some (AtSend msg)" and reg: "entry w s \<noteq> None"
    and r: "run [Send s, Round ps net] w = Some w'"
  shows "(\<forall>p. received w' p =
               (if entry w p \<noteq> None \<and> \<not> write_fails net msg w p
                then received w p @ [(TextMessage, msg)] else received w p)) \<and>
         (\<not> write_fails net msg w s \<longrightarrow> received w' s = received w s @ [(TextMessage, msg)])"
proof -
  from r obtain w1 where s1: "step (Send s) w = Some w1" and s2: "step (Round ps net) w1 = Some w'"
    by (auto split: option.splits)
  from s1 have a: "alive w" by (auto simp: step_def split: if_splits)
  from s1 send_step [OF a s] have w1: "w1 = w\<lparr>hub := AtRange msg, workers := (workers w)(s \<mapsto> AtRead)\<rparr>"
    by (auto split: broadcaster.splits)
  from reach have "world_ok w" by (rule ok_reachable)
  then have ok1: "world_ok w1" using s1 by (rule ok_step)
  have h1: "hub w1 = AtRange msg" by (simp add: w1)
  have cc: "client_conn w1 p = client_conn w p" for p
    by (rule client_conn_cong) (simp_all add: w1)
  then have same: "received w1 p = received w p" "write_fails net msg w1 p = write_fails net msg w p"
    "entry w1 p = entry w p" for p
    by (simp_all add: received_def write_fails_def w1)
  from round_effect [OF ok1 s2 h1]
  have 1: "received w' p =
               (if entry w p \<noteq> None \<and> \<not> write_fails net msg w p
                then received w p @ [(TextMessage, msg)] else received w p)" for p
    unfolding same by blast
  from 1 [of s] reg have "\<not> write_fails net msg w s \<longrightarrow> received w' s = received w s @ [(TextMessage, msg)]"
    by simp
  with 1 show ?thesis by blast
qed

theorem broadcast_echoes_to_sender_witness:
  "\<exists>w w'. run three_clients init = Some w \<and> workers w 1 = Some (AtSend hello) \<and>
      entry w 1 \<noteq> None \<and> run [Send 1, Round [1, 2, 3] Map.empty] w = Some w' \<and>
      \<not> write_fails Map.empty hello w 1 \<and>
      received w' 1 = [(TextMessage, hello)] \<and> received w' 2 = [(TextMessage, hello)] \<and>
      received w' 3 = [(TextMessage, hello)]"
proof -
  obtain w where w: "run three_clients init = Some w"
    by (simp add: scenario_defs model_defs)
  then have f: "workers w 1 = Some (AtSend hello)" "entry w 1 \<noteq> None" "entry w 2 \<noteq> None"
    "entry w 3 \<noteq> None"
    "\<not> write_fails Map.empty hello w 1" "\<not> write_fails Map.empty hello w 2"
    "\<not> write_fails Map.empty hello w 3"
    "received w 1 = []" "received w 2 = []" "received w 3 = []"
    by (auto simp: scenario_defs model_defs write_fails_def received_def)
  from w obtain w' where w': "run [Send 1, Round [1, 2, 3] Map.empty] w = Some w'"
    by (auto simp: scenario_defs model_defs insert_commute)
  note t = broadcast_echoes_to_sender [OF w f(1,2) w']
  from t have re: "received w' p = (if entry w p \<noteq> None \<and> \<not> write_fails Map.empty hello w p
                then received w p @ [(TextMessage, hello)] else received w p)" for p
    by blast
  from re [of 1] re [of 2] re [of 3] f
  have "received w' 1 = [(TextMessage, hello)]" "received w' 2 = [(TextMessage, hello)]"
    "received w' 3 = [(TextMessage, hello)]" by auto
  with w w' f show ?thesis by blast
qed

text \<open>
  C4. The registry invariant holds after every sequence of operations (add on accept, remove
  on a read failure, remove on a write failure): no connection is under two keys of the
  registry, and a client is a key of the registry exactly when its connection is established
  and not closed.
\<close>

theorem registry_invariant:
  "run es init = Some w \<Longrightarrow> registry_inv w"
  by (rule registry_inv_ok) (rule ok_reachable)

theorem registry_invariant_witness:
  "\<exists>w. run failure_and_disconnect init = Some w \<and> registry_inv w \<and>
       Mapping.keys (clients w) = {1}"
proof -
  obtain w where w: "run failure_and_disconnect init = Some w"
    by (simp add: scenario_defs model_defs insert_commute)
  then have "Mapping.keys (clients w) = {1}"
    by (auto simp: scenario_defs model_defs insert_commute)
  with w registry_invariant [OF w] show ?thesis by blast
qed

text \<open>
  C5. Per-source order. In every run, for every client \<open>a\<close> and every recipient \<open>r\<close>: when
  the payloads tell their source (the run is tagged by some function \<open>origin\<close>), the messages
  of \<open>a\<close> that \<open>r\<close> has been sent, in the order \<open>r\<close> was sent them, are a subsequence of
  the messages \<open>a\<close> sent, in the order \<open>a\<close> sent them. And in general: the run is what
  is left, when the tags are removed, of the run in which every payload is tagged with the
  client it is read from; there, the payloads tagged \<open>a\<close> that \<open>r\<close> has been sent are,
  without their tags and in the order \<open>r\<close> was sent them, a subsequence of the messages
  \<open>a\<close> sent.
\<close>

theorem per_source_order:
  assumes "run es init = Some w"
  shows "(tagged origin es \<longrightarrow> subseq (from_source origin a (received w r)) (sent_by a es)) \<and>
         (\<exists>w'. run (tag_reads es) init = Some w' \<and> map_world untag w' = w \<and>
               subseq (map untag (from_source source a (received w' r))) (sent_by a es))"
proof
  show "tagged origin es \<longrightarrow> subseq (from_source origin a (received w r)) (sent_by a es)"
  proof
    assume "tagged origin es"
    from order_inv_run [OF assms this, of a]
    have "subseq (from_source origin a (received w r) @ in_flight origin a w) (sent_by a es)"
      by (simp add: order_inv_def)
    then show "subseq (from_source origin a (received w r)) (sent_by a es)"
      by (rule subseq_keep [where ys' = "[]", simplified])
  qed
  from assms obtain w' where w': "run (tag_reads es) init = Some w'" and u: "map_world untag w' = w"
    by (rule run_tag_reads)
  from order_inv_run [OF w' tagged_tag_reads, of a]
  have "subseq (from_source source a (received w' r) @ in_flight source a w') (sent_by a (tag_reads es))"
    by (simp add: order_inv_def)
  then have "subseq (from_source source a (received w' r)) (map (tag a) (sent_by a es))"
    unfolding sent_by_tag_reads by (rule subseq_keep [where ys' = "[]", simplified])
  then have "subseq (map untag (from_source source a (received w' r))) (sent_by a es)"
    by (rule subseq_untag)
  with w' u show "\<exists>w'. run (tag_reads es) init = Some w' \<and> map_world untag w' = w \<and>
               subseq (map untag (from_source source a (received w' r))) (sent_by a es)"
    by blast
qed

theorem per_source_order_witness:
  "(\<exists>w. run two_sources init = Some w \<and> tagged first_byte two_sources \<and>
       received w 2 = [(TextMessage, [1, 10]), (TextMessage, [3, 30]), (TextMessage, [1, 20])] \<and>
       sent_by 1 two_sources = [[1, 10], [1, 20]] \<and>
       subseq (from_source first_byte 1 (received w 2)) (sent_by 1 two_sources)) \<and>
   (\<exists>w w'. run same_payload init = Some w \<and> run (tag_reads same_payload) init = Some w' \<and>
       map_world untag w' = w \<and> sent_by 1 same_payload = [hello] \<and>
       subseq (map untag (from_source source 1 (received w' 2))) (sent_by 1 same_payload))"
proof (rule conjI)
  have "received_after two_sources 2 =
      Some [(TextMessage, [1, 10]), (TextMessage, [3, 30]), (TextMessage, [1, 20])]"
    by (simp add: received_after_def scenario_defs model_defs received_def insert_commute)
  then obtain w where w: "run two_sources init = Some w"
    and r: "received w 2 = [(TextMessage, [1, 10]), (TextMessage, [3, 30]), (TextMessage, [1, 20])]"
    by (auto simp: received_after_def split: option.splits)
  have t: "tagged first_byte two_sources"
    by (simp add: two_sources_def first_byte_def)
  have s: "sent_by 1 two_sources = [[1, 10], [1, 20]]"
    by (simp add: two_sources_def)
  from per_source_order [OF w, of first_byte 1 2] w t r s
  show "\<exists>w. run two_sources init = Some w \<and> tagged first_byte two_sources \<and>
       received w 2 = [(TextMessage, [1, 10]), (TextMessage, [3, 30]), (TextMessage, [1, 20])] \<and>
       sent_by 1 two_sources = [[1, 10], [1, 20]] \<and>
       subseq (from_source first_byte 1 (received w 2)) (sent_by 1 two_sources)"
    by blast
next
  obtain w where w: "run same_payload init = Some w"
    by (simp add: scenario_defs model_defs insert_commute)
  have s: "sent_by 1 same_payload = [hello]"
    by (simp add: same_payload_def)
  from per_source_order [OF w, of first_byte 1 2] w s
  show "\<exists>w w'. run same_payload init = Some w \<and> run (tag_reads same_payload) init = Some w' \<and>
       map_world untag w' = w \<and> sent_by 1 same_payload = [hello] \<and>
       subseq (map untag (from_source source 1 (received w' 2))) (sent_by 1 same_payload)"
    by blast
qed

text \<open>
  C6, as the claim states it: a send to the channel would never block. With two clients
  holding a message each, once \<open>handleMessages\<close> has taken the first the second sender
  cannot complete its send: the process is alive, the goroutine is at line 54, and the send is
  not possible.
\<close>

theorem send_blocks_counterexample:
  "alive_after two_senders = Some True \<and>
   worker_after two_senders 2 = Some (Some (AtSend hello)) \<and>
   run (two_senders @ [Send 2]) init = None"
  by (simp add: alive_after_def worker_after_def scenario_defs model_defs)

text \<open>
  C6, amended. A send to the channel never fails: when \<open>handleMessages\<close> is at its receive
  the send completes, hands over exactly the message read, and changes nothing else but the
  sender's position. It blocks while \<open>handleMessages\<close> holds a message, and can complete
  as soon as that round is over.
\<close>

theorem send_is_rendezvous:
  assumes reach: "run es init = Some w" and a: "alive w" and s: "workers w p = Some (AtSend msg)"
  shows "(hub w = AtReceive \<longrightarrow>
            step (Send p) w = Some (w\<lparr>hub := AtRange msg, workers := (workers w)(p \<mapsto> AtRead)\<rparr>)) \<and>
         (\<forall>m. hub w = AtRange m \<longrightarrow>
            step (Send p) w = None \<and>
            (\<forall>ps net w1. step (Round ps net) w = Some w1 \<longrightarrow>
               step (Send p) w1 =
                 Some (w1\<lparr>hub := AtRange msg, workers := (workers w1)(p \<mapsto> AtRead)\<rparr>)))"
proof (intro conjI allI impI)
  assume "hub w = AtReceive"
  with send_step [OF a s]
  show "step (Send p) w = Some (w\<lparr>hub := AtRange msg, workers := (workers w)(p \<mapsto> AtRead)\<rparr>)"
    by simp
next
  fix m assume "hub w = AtRange m"
  with send_step [OF a s] show "step (Send p) w = None" by simp
next
  fix m ps net w1
  assume h: "hub w = AtRange m" and r: "step (Round ps net) w = Some w1"
  from reach have ok: "world_ok w" by (rule ok_reachable)
  from round_effect [OF ok r h] have a1: "alive w1" by blast
  from round_frame [OF r] s have "workers w1 p = Some (AtSend msg)" "hub w1 = AtReceive" by simp_all
  with send_step [OF a1, of p msg]
  show "step (Send p) w1 = Some (w1\<lparr>hub := AtRange msg, workers := (workers w1)(p \<mapsto> AtRead)\<rparr>)"
    by simp
qed

theorem send_is_rendezvous_witness:
  "(\<exists>w. run [Request (Inr 11) 1, Read 1 (Inr (TextMessage, hello))] init = Some w \<and>
        alive w \<and> workers w 1 = Some (AtSend hello) \<and> hub w = AtReceive \<and>
        step (Send 1) w = Some (w\<lparr>hub := AtRange hello, workers := (workers w)(1 \<mapsto> AtRead)\<rparr>)) \<and>
   (\<exists>w w1. run two_senders init = Some w \<and> alive w \<and> workers w 2 = Some (AtSend hello) \<and>
        hub w = AtRange hello \<and> step (Send 2) w = None \<and>
        step (Round [1, 2] Map.empty) w = Some w1 \<and>
        step (Send 2) w1 = Some (w1\<lparr>hub := AtRange hello, workers := (workers w1)(2 \<mapsto> AtRead)\<rparr>))"
proof (rule conjI)
  obtain w where w: "run [Request (Inr 11) 1, Read 1 (Inr (TextMessage, hello))] init = Some w"
    by (simp add: model_defs)
  then have f: "alive w" "workers w 1 = Some (AtSend hello)" "hub w = AtReceive"
    by (auto simp: model_defs)
  from send_is_rendezvous [OF w f(1,2)] f(3)
  have "step (Send 1) w = Some (w\<lparr>hub := AtRange hello, workers := (workers w)(1 \<mapsto> AtRead)\<rparr>)"
    by blast
  with w f show "\<exists>w. run [Request (Inr 11) 1, Read 1 (Inr (TextMessage, hello))] init = Some w \<and>
        alive w \<and> workers w 1 = Some (AtSend hello) \<and> hub w = AtReceive \<and>
        step (Send 1) w = Some (w\<lparr>hub := AtRange hello, workers := (workers w)(1 \<mapsto> AtRead)\<rparr>)"
    by blast
next
  obtain w where w: "run two_senders init = Some w"
    by (simp add: scenario_defs model_defs)
  then have f: "alive w" "workers w 2 = Some (AtSend hello)" "hub w = AtRange hello"
    and k: "Mapping.keys (clients w) = {1, 2}"
    by (auto simp: scenario_defs model_defs)
  have "set [1, 2] = Mapping.keys (clients w)" unfolding k by auto
  with f obtain w1 where w1: "step (Round [1, 2] Map.empty) w = Some w1"
    by (simp add: round_enabled)
  from send_is_rendezvous [OF w f(1,2)] f(3) w1
  have "step (Send 2) w = None"
    "step (Send 2) w1 = Some (w1\<lparr>hub := AtRange hello, workers := (workers w1)(2 \<mapsto> AtRead)\<rparr>)"
    by blast+
  with w f w1 show "\<exists>w w1. run two_senders init = Some w \<and> alive w \<and>
        workers w 2 = Some (AtSend hello) \<and>
        hub w = AtRange hello \<and> step (Send 2) w = None \<and>
        step (Round [1, 2] Map.empty) w = Some w1 \<and>
        step (Send 2) w1 = Some (w1\<lparr>hub := AtRange hello, workers := (workers w1)(2 \<mapsto> AtRead)\<rparr>)"
    by blast
qed

text \<open>
  C8. Remove of an absent client is a no-op: for every registry and every client that is not
  a key of it, \<open>delete\<close> returns the registry as it was (the builtin has no error result).
  So the two failure paths do not disturb each other: when a write failure has removed a
  client, the read failure that follows in the client's own goroutine leaves the registry and
  the process as they are, and the goroutine returns.
\<close>

theorem remove_absent_is_noop:
  "(Mapping.lookup m p = None \<longrightarrow> clients_delete m p = m) \<and>
   (run es init = Some w \<and> alive w \<and> workers w q = Some AtRead \<and> entry w q = None \<longrightarrow>
      (\<exists>w'. step (Read q net) w = Some w' \<and> clients w' = clients w \<and> alive w' \<and>
            workers w' q = Some Exited))"
proof (intro conjI impI)
  show "clients_delete m p = m" if "Mapping.lookup m p = None"
    using that by (rule delete_absent)
next
  assume a: "run es init = Some w \<and> alive w \<and> workers w q = Some AtRead \<and> entry w q = None"
  then have ok: "world_ok w" using ok_reachable by blast
  from a worker_has_client [of es w q] obtain cl where h: "heap w q = Some cl" by auto
  with ok obtain c where c: "conns w (conn cl) = Some c"
    unfolding world_ok_def heap_ok_def by blast
  from ok have "entry w q \<noteq> None \<longleftrightarrow> eligible w q" unfolding world_ok_def by blast
  with a have "\<not> eligible w q" by simp
  with h c have cl: "closed c" by (simp add: eligible_iff)
  from h c have cc: "client_conn w q = Some (conn cl, c)" by (simp add: client_conn_def)
  from a have d: "clients_delete (clients w) q = clients w" by (simp add: delete_absent)
  show "\<exists>w'. step (Read q net) w = Some w' \<and> clients w' = clients w \<and> alive w' \<and>
            workers w' q = Some Exited"
    using a cc cl d
    by (simp add: step_def handleConnections_read_def ReadMessage_def log_Printf_error_def)
qed

theorem remove_absent_is_noop_witness:
  "Mapping.lookup (clients_add Mapping.empty 1) 2 = None \<and>
   clients_delete (clients_add Mapping.empty 1) 2 = clients_add Mapping.empty 1 \<and>
   (\<exists>w w'. run one_write_fails init = Some w \<and> alive w \<and> workers w 2 = Some AtRead \<and>
      entry w 2 = None \<and> step (Read 2 (Inr (TextMessage, hello))) w = Some w' \<and>
      clients w' = clients w \<and> alive w' \<and> workers w' 2 = Some Exited)"
proof -
  have 1: "Mapping.lookup (clients_add Mapping.empty 1) (2::nat) = None"
    by (simp add: lookup_clients_add)
  obtain w where w: "run one_write_fails init = Some w"
    by (simp add: scenario_defs model_defs insert_commute)
  then have 2: "alive w" "workers w 2 = Some AtRead" "entry w 2 = None"
    by (auto simp: scenario_defs model_defs insert_commute)
  note t = remove_absent_is_noop [of "clients_add Mapping.empty 1" 2 one_write_fails w 2
      "Inr (TextMessage, hello)"]
  from t 1 have "clients_delete (clients_add Mapping.empty 1) 2 = clients_add Mapping.empty 1"
    by blast
  moreover from t w 2 obtain w' where "step (Read 2 (Inr (TextMessage, hello))) w = Some w'"
    "clients w' = clients w" "alive w'" "workers w' 2 = Some Exited" by blast
  ultimately show ?thesis using 1 w 2 by blast
qed

text \<open>
  C9. Add is idempotent: for every registry and every client, adding the client a second time
  gives the registry that one add gives; the assignment of line 42 has no error result.
\<close>

theorem clients_add_idempotent:
  "clients_add (clients_add m p) p = clients_add m p"
  unfolding clients_add_def by transfer simp

text \<open>
  C10. Every frame the broadcaster has delivered, in every reachable state and to every
  client, has type \<open>TextMessage\<close>; and what \<open>handleConnections\<close> does with a frame it
  reads does not depend on the frame's type, which is dropped at line 47.
\<close>

theorem delivered_frames_are_text:
  assumes "run es init = Some w"
  shows "text_only w \<and>
         (\<forall>p t t' msg v. handleConnections_read p (Inr (t, msg)) v =
                         handleConnections_read p (Inr (t', msg)) v)"
proof
  have "world_ok w \<and> text_only w"
    by (rule run_invariant [where P = "\<lambda>w. world_ok w \<and> text_only w", OF _ _ assms])
       (erule (1) text_only_step, rule conjI, rule ok_init,
        simp add: text_only_def received_def client_conn_def init_def)
  then show "text_only w" ..
  show "\<forall>p t t' msg v. handleConnections_read p (Inr (t, msg)) v =
                         handleConnections_read p (Inr (t', msg)) v"
    by (simp add: handleConnections_read_def ReadMessage_def split: option.splits worker.splits)
qed

theorem delivered_frames_are_text_witness:
  "\<exists>w. run binary_in init = Some w \<and> text_only w \<and>
       received w 1 = [(TextMessage, hello)] \<and>
       handleConnections_read 2 (Inr (BinaryMessage, hello)) w =
       handleConnections_read 2 (Inr (TextMessage, hello)) w"
proof -
  have "received_after binary_in 1 = Some [(TextMessage, hello)]"
    by (simp add: received_after_def scenario_defs model_defs received_def)
  then obtain w where w: "run binary_in init = Some w"
    and r: "received w 1 = [(TextMessage, hello)]"
    by (auto simp: received_after_def split: option.splits)
  from delivered_frames_are_text [OF w] r w show ?thesis by blast
qed

end
